theory Spec2Isabelle
  imports Complex_Main "HOL-Library.AList" "HOL-Library.Multiset"
    "HOL-Library.Product_Lexorder"
    "HOL-Library.Sublist" "HOL-Library.Word"
begin

section \<open>SpenderSentry: an audit of ERC-20 approvals\<close>

text \<open>
  A shallow embedding of \<^verbatim>\<open>spendersentry.py\<close>. Python's unbounded integers are
  \<open>int\<close>, a \<^verbatim>\<open>str\<close> is a \<open>string\<close> (the three non-ASCII markers of the table are
  their UTF-8 bytes), a \<^verbatim>\<open>dict\<close> is an association list in insertion order, an
  exception is the \<open>Inl\<close> of a sum, and a loop that may run forever returns \<open>None\<close>.
\<close>

subsection \<open>Exceptions\<close>

datatype py_error =
    RPCError string
  | IndexError
  | OverflowError
  | ZeroDivisionError
  | InvalidAddress
  | SystemExit

subsection \<open>Module constants\<close>

text \<open>
  \<^verbatim>\<open>SAFE_SPENDERS_ETH\<close>: the keys are written in the source in their EIP-55 form, on
  which \<^verbatim>\<open>Web3.to_checksum_address\<close> is the identity, so the table holds them as written.
\<close>

definition SAFE_SPENDERS_ETH :: "(string \<times> string) list" where
  "SAFE_SPENDERS_ETH =
    [(''0xE592427A0AEce92De3Edee1F18E0157C05861564'', ''Uniswap V3 SwapRouter''),
     (''0x68b3465833fb72A70ecDF485E0e4C7bD8665Fc45'', ''Uniswap V3 SwapRouter02''),
     (''0x7a250d5630B4cF539739dF2C5dAcb4c659F2488D'', ''Uniswap V2 Router''),
     (''0x1111111254EEB25477B68fb85Ed929f73A960582'', ''1inch Aggregation Router''),
     (''0xDef1C0ded9bec7F1a1670819833240f027b25EfF'', ''0x Exchange Proxy'')]"

definition INFINITE_THRESHOLD :: int where
  "INFINITE_THRESHOLD = 2 ^ 255"

subsection \<open>The risk heuristic\<close>

text \<open>\<^verbatim>\<open>spender in SAFE_SPENDERS_ETH\<close> is membership among the keys of the dict.\<close>

definition calc_risk :: "int \<Rightarrow> int \<Rightarrow> string \<Rightarrow> int" where
  "calc_risk allowance_raw balance_raw spender =
    (let is_infinite = (allowance_raw \<ge> INFINITE_THRESHOLD);
         in_allow = (map_of SAFE_SPENDERS_ETH spender \<noteq> None)
     in if (is_infinite \<and> \<not> in_allow)
           \<or> (balance_raw > 0 \<and> allowance_raw > 10 * balance_raw \<and> \<not> in_allow)
        then 3
        else if (allowance_raw > balance_raw \<and> \<not> in_allow) \<or> (is_infinite \<and> in_allow)
        then 2
        else 1)"

subsection \<open>The block range chunker\<close>

text \<open>
  \<^verbatim>\<open>chunk_ranges\<close> is a generator around a \<^verbatim>\<open>while\<close> loop. The model is the list of
  everything it yields; with \<open>step \<le> 0\<close> and \<open>start \<le> end\<close> the loop never ends, which
  is the value \<open>None\<close>.
\<close>

partial_function (option) chunk_ranges :: "int \<Rightarrow> int \<Rightarrow> int \<Rightarrow> (int \<times> int) list option" where
  "chunk_ranges cur end' step =
    (if cur \<le> end'
     then Option.bind (chunk_ranges (cur + step) end' step)
            (\<lambda>rest. Some ((cur, min end' (cur + step - 1)) # rest))
     else Some [])"

text \<open>The number of chunks and the \<open>k\<close>-th chunk, used to state what the generator yields.\<close>

definition chunk_count :: "int \<Rightarrow> int \<Rightarrow> int \<Rightarrow> nat" where
  "chunk_count cur end' step = nat ((end' - cur + step) div step)"

definition nth_chunk :: "int \<Rightarrow> int \<Rightarrow> int \<Rightarrow> nat \<Rightarrow> int \<times> int" where
  "nth_chunk cur end' step k = (cur + int k * step, min end' (cur + int k * step + step - 1))"

subsection \<open>Strings\<close>

text \<open>\<^verbatim>\<open>str(n)\<close> of an integer: its decimal digits, with a minus sign when negative.\<close>

definition digit_char :: "int \<Rightarrow> char" where
  "digit_char d = ''0123456789'' ! nat d"

function str_digits :: "int \<Rightarrow> string" where
  "str_digits n =
    (if n < 10 then [digit_char n] else str_digits (n div 10) @ [digit_char (n mod 10)])"
  by pat_completeness auto
termination
  by (relation "measure nat") auto

declare str_digits.simps [simp del]

definition str_int :: "int \<Rightarrow> string" where
  "str_int i = (if i < 0 then CHR ''-'' # str_digits (- i) else str_digits i)"

text \<open>\<^verbatim>\<open>s.rstrip(c)\<close> with a single character \<open>c\<close>.\<close>

definition rstrip :: "char \<Rightarrow> string \<Rightarrow> string" where
  "rstrip c s = rev (dropWhile (\<lambda>x. x = c) (rev s))"

subsection \<open>Floats: true division of integers and fixed-point formatting\<close>

text \<open>
  A finite binary64 value is a sign, a mantissa and an exponent: it stands for
  \<open>\<plusminus> mantissa * 2 ^ exponent\<close>. CPython's \<^verbatim>\<open>int / int\<close> is correctly rounded (to nearest,
  ties to even), also for operands that do not fit a float; it raises
  \<^verbatim>\<open>ZeroDivisionError\<close> on a zero divisor and \<^verbatim>\<open>OverflowError\<close> when the rounded
  quotient is not finite, and returns a signed zero on underflow.
\<close>

datatype pyfloat = PyFloat (negative: bool) (mantissa: int) (exponent: int)

text \<open>\<open>a / b\<close> rounded to the nearest integer, ties to even, for \<open>a \<ge> 0\<close> and \<open>b > 0\<close>.\<close>

definition rne_div :: "int \<Rightarrow> int \<Rightarrow> int" where
  "rne_div a b =
    (let q = a div b; r = a mod b
     in if 2 * r < b then q
        else if b < 2 * r then q + 1
        else if even q then q else q + 1)"

text \<open>\<^verbatim>\<open>n.bit_length()\<close> for \<open>n \<ge> 0\<close>.\<close>

function bit_length :: "int \<Rightarrow> int" where
  "bit_length n = (if n \<le> 0 then 0 else 1 + bit_length (n div 2))"
  by pat_completeness auto
termination
  by (relation "measure nat") auto

declare bit_length.simps [simp del]

text \<open>The integer \<open>p\<close> with \<open>2 ^ p \<le> x / y < 2 ^ (p + 1)\<close>, for positive \<open>x\<close> and \<open>y\<close>.\<close>

definition floor_log2_ratio :: "int \<Rightarrow> int \<Rightarrow> int" where
  "floor_log2_ratio x y =
    (let d = bit_length x - bit_length y
     in if 0 \<le> d then (if y * 2 ^ nat d \<le> x then d else d - 1)
        else (if y \<le> x * 2 ^ nat (- d) then d else d - 1))"

definition true_div :: "int \<Rightarrow> int \<Rightarrow> py_error + pyfloat" where
  "true_div a b =
    (if b = 0 then Inl ZeroDivisionError
     else
       let neg = ((a < 0) \<noteq> (b < 0)); x = \<bar>a\<bar>; y = \<bar>b\<bar>
       in if x = 0 then Inr (PyFloat neg 0 0)
          else
            let e = max (floor_log2_ratio x y - 52) (- 1074);
                m = (if 0 \<le> e then rne_div x (y * 2 ^ nat e) else rne_div (x * 2 ^ nat (- e)) y)
            in if 971 < e \<or> (e = 971 \<and> 2 ^ 53 \<le> m) then Inl OverflowError
               else Inr (PyFloat neg m e))"

text \<open>
  \<^verbatim>\<open>f"{x:.8f}"\<close>: the exact value of the float, rounded to the nearest multiple of
  \<open>10\<^sup>-\<^sup>8\<close> (ties to even), printed with its sign, its integer part and eight
  fractional digits. \<open>scaled_1e8\<close> is that multiple's numerator.
\<close>

definition scaled_1e8 :: "pyfloat \<Rightarrow> int" where
  "scaled_1e8 x =
    (if 0 \<le> exponent x then mantissa x * 2 ^ nat (exponent x) * 10 ^ 8
     else rne_div (mantissa x * 10 ^ 8) (2 ^ nat (- exponent x)))"

definition pad8 :: "int \<Rightarrow> string" where
  "pad8 n = replicate (8 - length (str_digits n)) CHR ''0'' @ str_digits n"

definition format_8f :: "pyfloat \<Rightarrow> string" where
  "format_8f x =
    (let n = scaled_1e8 x
     in (if negative x then ''-'' else []) @ str_digits (n div 10 ^ 8) @ ''.'' @ pad8 (n mod 10 ^ 8))"

definition human_amount :: "int \<Rightarrow> int \<Rightarrow> py_error + string" where
  "human_amount value decimals =
    (if decimals \<le> 0 then Inr (str_int value)
     else case true_div value (10 ^ nat decimals) of
            Inl e \<Rightarrow> Inl e
          | Inr scaled \<Rightarrow> Inr (rstrip CHR ''.'' (rstrip CHR ''0'' (format_8f scaled))))"

subsection \<open>The RPC client\<close>

text \<open>
  The node and the \<^verbatim>\<open>web3\<close> library are outside the program. They are a record of what
  the program reads from them: each remote call returns its value or the exception it
  raised. A log has the three fields the scanner reads; topics and data are bytes.
\<close>

type_synonym bytes = "8 word list"

record log_entry =
  address :: string
  topics :: "bytes list"
  data :: bytes

record log_filter =
  fromBlock :: int
  toBlock :: int
  filter_topics :: "string list"

record web3 =
  is_connected :: bool
  chain_id :: "py_error + int"
  block_number :: "py_error + int"
  get_logs :: "log_filter \<Rightarrow> py_error + log_entry list"
  call_symbol :: "string \<Rightarrow> py_error + string"
  call_decimals :: "string \<Rightarrow> py_error + int"
  call_allowance :: "string \<Rightarrow> string \<Rightarrow> string \<Rightarrow> py_error + int"
  call_balanceOf :: "string \<Rightarrow> string \<Rightarrow> py_error + int"
  to_checksum_address :: "string \<Rightarrow> py_error + string"

text \<open>
  \<^verbatim>\<open>SIG_APPROVAL\<close> is the Keccak-256 hash of \<^verbatim>\<open>Approval(address,address,uint256)\<close>, in hex.
\<close>

definition SIG_APPROVAL :: string where
  "SIG_APPROVAL = ''0x8c5be1e5ebec7d5bd14f71427d1e84f3dd0314c0f7b2291e5b200ac8c7c3b925''"

subsection \<open>Metadata and allowance fetchers\<close>

text \<open>
  Each \<^verbatim>\<open>try: x = call() except Exception: pass\<close> keeps the default when the call raised.
\<close>

definition get_token_meta :: "web3 \<Rightarrow> string \<Rightarrow> string \<times> int" where
  "get_token_meta w3 addr =
    (let symbol = ''UNKNOWN''; decimals = 18;
         symbol = (case call_symbol w3 addr of Inl e \<Rightarrow> symbol | Inr s \<Rightarrow> s);
         decimals = (case call_decimals w3 addr of Inl e \<Rightarrow> decimals | Inr d \<Rightarrow> d)
     in (symbol, decimals))"

definition get_allowance_balance :: "web3 \<Rightarrow> string \<Rightarrow> string \<Rightarrow> string \<Rightarrow> int \<times> int" where
  "get_allowance_balance w3 token owner spender =
    (let allow = 0; bal = 0;
         allow = (case call_allowance w3 token owner spender of Inl e \<Rightarrow> allow | Inr v \<Rightarrow> v);
         bal = (case call_balanceOf w3 token owner of Inl e \<Rightarrow> bal | Inr v \<Rightarrow> v)
     in (allow, bal))"

subsection \<open>The log scanner\<close>

definition hex_digit :: "nat \<Rightarrow> char" where
  "hex_digit d = ''0123456789abcdef'' ! d"

text \<open>\<^verbatim>\<open>HexBytes.hex()\<close>: \<^verbatim>\<open>0x\<close> and two lower-case digits for each byte.\<close>

definition hex_of_bytes :: "bytes \<Rightarrow> string" where
  "hex_of_bytes bs =
    ''0x'' @ concat (map (\<lambda>b. [hex_digit (unat b div 16), hex_digit (unat b mod 16)]) bs)"

text \<open>\<^verbatim>\<open>int.from_bytes(bs, byteorder="big")\<close>.\<close>

definition int_from_bytes_big :: "bytes \<Rightarrow> int" where
  "int_from_bytes_big bs = foldl (\<lambda>acc b. acc * 256 + uint b) 0 bs"

text \<open>The slice \<^verbatim>\<open>s[-n:]\<close>: the last \<open>n\<close> characters, all of \<open>s\<close> when it is shorter.\<close>

definition last_chars :: "nat \<Rightarrow> string \<Rightarrow> string" where
  "last_chars n s = drop (length s - n) s"

text \<open>\<^verbatim>\<open>str.lower()\<close> on ASCII text.\<close>

definition lower :: "string \<Rightarrow> string" where
  "lower s =
    map (\<lambda>c. if 65 \<le> (of_char c :: nat) \<and> (of_char c :: nat) \<le> 90
              then char_of (of_char c + 32 :: nat) else c) s"

type_synonym pairs = "((string \<times> string) \<times> int) list"

text \<open>
  The body of the inner loop: first the key and the value are read from the log, then
  \<^verbatim>\<open>pairs[(token, spender)] = raw\<close> stores them. \<^verbatim>\<open>lg["topics"][2]\<close> raises
  \<^verbatim>\<open>IndexError\<close> on a log with fewer than three topics.
\<close>

definition decode_log :: "web3 \<Rightarrow> log_entry \<Rightarrow> py_error + ((string \<times> string) \<times> int)" where
  "decode_log w3 lg =
    (case to_checksum_address w3 (address lg) of
       Inl e \<Rightarrow> Inl e
     | Inr token \<Rightarrow>
         if length (topics lg) \<le> 2 then Inl IndexError
         else
           let spender_topic = hex_of_bytes (nth (topics lg) 2)
           in (case to_checksum_address w3 (''0x'' @ last_chars 40 spender_topic) of
                 Inl e \<Rightarrow> Inl e
               | Inr spender \<Rightarrow>
                   let raw = int_from_bytes_big (data lg)
                   in Inr ((token, spender), raw)))"

text \<open>
  Assignment to a key of a dict replaces the value of a key that is there and appends a
  new key at the end: \<open>AList.update\<close>.
\<close>

definition record_log :: "web3 \<Rightarrow> pairs \<Rightarrow> log_entry \<Rightarrow> py_error + pairs" where
  "record_log w3 pairs lg =
    (case decode_log w3 lg of
       Inl e \<Rightarrow> Inl e
     | Inr (key, raw) \<Rightarrow> Inr (AList.update key raw pairs))"

fun process_logs :: "web3 \<Rightarrow> log_entry list \<Rightarrow> pairs \<Rightarrow> py_error + pairs" where
  "process_logs w3 [] pairs = Inr pairs"
| "process_logs w3 (lg # logs) pairs =
    (case record_log w3 pairs lg of
       Inl e \<Rightarrow> Inl e
     | Inr pairs' \<Rightarrow> process_logs w3 logs pairs')"

text \<open>
  The loop \<^verbatim>\<open>for a, b in chunk_ranges(start, latest, step)\<close>. The generator is consumed
  lazily, so each chunk is queried before the next one is computed: the loop of the
  generator and the loop of the scanner are one loop here. It returns \<open>None\<close> when it
  never ends, the exception when a call raised, the mapping otherwise.
\<close>

definition log_query :: "string \<Rightarrow> int \<Rightarrow> int \<Rightarrow> log_filter" where
  "log_query owner_topic a b =
    \<lparr>fromBlock = a, toBlock = b, filter_topics = [SIG_APPROVAL, owner_topic]\<rparr>"

partial_function (option) scan_loop ::
  "web3 \<Rightarrow> string \<Rightarrow> int \<Rightarrow> int \<Rightarrow> int \<Rightarrow> pairs \<Rightarrow> (py_error + pairs) option" where
  "scan_loop w3 owner_topic cur latest step pairs =
    (if cur \<le> latest
     then
       let a = cur; b = min latest (cur + step - 1);
           filt = log_query owner_topic a b
       in case get_logs w3 filt of
            Inl e \<Rightarrow> Some (Inl e)
          | Inr logs \<Rightarrow>
              (case process_logs w3 logs pairs of
                 Inl e \<Rightarrow> Some (Inl e)
               | Inr pairs' \<Rightarrow> scan_loop w3 owner_topic (cur + step) latest step pairs')
     else Some (Inr pairs))"

declare chunk_ranges.simps [code] scan_loop.simps [code]

text \<open>
  The first lines of \<^verbatim>\<open>scan_approvals\<close>: the last block, read from the node when
  \<^verbatim>\<open>to_block\<close> is \<^verbatim>\<open>None\<close>, and the first block, clamped at zero.
\<close>

definition scan_range :: "web3 \<Rightarrow> int option \<Rightarrow> int option \<Rightarrow> py_error + (int \<times> int)" where
  "scan_range w3 from_block to_block =
    (case (case to_block of None \<Rightarrow> block_number w3 | Some t \<Rightarrow> Inr t) of
       Inl e \<Rightarrow> Inl e
     | Inr latest \<Rightarrow>
         let start = (case from_block of None \<Rightarrow> latest - 200000 | Some f \<Rightarrow> f);
             start = max start 0
         in Inr (start, latest))"

definition owner_topic_of :: "string \<Rightarrow> string" where
  "owner_topic_of owner = ''0x'' @ replicate 24 CHR ''0'' @ lower (drop 2 owner)"

definition scan_approvals ::
  "web3 \<Rightarrow> string \<Rightarrow> int option \<Rightarrow> int option \<Rightarrow> int \<Rightarrow> (py_error + pairs) option" where
  "scan_approvals w3 owner from_block to_block step =
    (case scan_range w3 from_block to_block of
       Inl e \<Rightarrow> Some (Inl e)
     | Inr (start, latest) \<Rightarrow>
         let owner_topic = owner_topic_of owner
         in scan_loop w3 owner_topic start latest step [])"

text \<open>The scanner's loop over a given list of chunks, to compare with \<open>chunk_ranges\<close>.\<close>

fun scan_chunks :: "web3 \<Rightarrow> string \<Rightarrow> (int \<times> int) list \<Rightarrow> pairs \<Rightarrow> py_error + pairs" where
  "scan_chunks w3 owner_topic [] pairs = Inr pairs"
| "scan_chunks w3 owner_topic ((a, b) # chunks) pairs =
    (case get_logs w3 (log_query owner_topic a b) of
       Inl e \<Rightarrow> Inl e
     | Inr logs \<Rightarrow>
         (case process_logs w3 logs pairs of
            Inl e \<Rightarrow> Inl e
          | Inr pairs' \<Rightarrow> scan_chunks w3 owner_topic chunks pairs'))"

text \<open>The logs the node returns for a list of chunks, in the order the scanner reads them.\<close>

definition scanned_logs :: "web3 \<Rightarrow> string \<Rightarrow> (int \<times> int) list \<Rightarrow> log_entry list" where
  "scanned_logs w3 owner_topic chunks =
    concat (map (\<lambda>(a, b). case get_logs w3 (log_query owner_topic a b) of
                            Inl e \<Rightarrow> [] | Inr logs \<Rightarrow> logs) chunks)"

subsection \<open>The report\<close>

record AllowanceRow =
  token :: string
  symbol :: string
  decimals :: int
  spender :: string
  spender_tag :: string
  allowance :: string
  allowance_raw :: int
  balance :: string
  balance_raw :: int
  risk :: int

text \<open>
  The loop of \<^verbatim>\<open>build_report\<close> over \<^verbatim>\<open>pairs.items()\<close>, in insertion order, with the
  cache \<^verbatim>\<open>meta\<close> and the list \<^verbatim>\<open>rows\<close> it appends to. An \<^verbatim>\<open>OverflowError\<close> of
  \<^verbatim>\<open>human_amount\<close> is not caught.
\<close>

fun build_rows ::
  "web3 \<Rightarrow> string \<Rightarrow> pairs \<Rightarrow> (string \<rightharpoonup> string \<times> int) \<Rightarrow> AllowanceRow list
    \<Rightarrow> py_error + AllowanceRow list" where
  "build_rows w3 owner [] meta rows = Inr rows"
| "build_rows w3 owner (((tok, spd), raw) # rest) meta rows =
    (let (meta, md) = (case meta tok of
                         None \<Rightarrow> (let md = get_token_meta w3 tok in (meta(tok \<mapsto> md), md))
                       | Some md \<Rightarrow> (meta, md));
         sym = fst md; dec = snd md;
         (allow_raw, bal_raw) = get_allowance_balance w3 tok owner spd
     in case human_amount allow_raw dec of
          Inl e \<Rightarrow> Inl e
        | Inr allow_h \<Rightarrow>
            (case human_amount bal_raw dec of
               Inl e \<Rightarrow> Inl e
             | Inr bal_h \<Rightarrow>
                 let tag = (case map_of SAFE_SPENDERS_ETH spd of None \<Rightarrow> [] | Some t \<Rightarrow> t);
                     rsk = calc_risk allow_raw bal_raw spd
                 in build_rows w3 owner rest meta
                      (rows @ [\<lparr>token = tok, symbol = sym, decimals = dec,
                                 spender = spd, spender_tag = tag,
                                 allowance = allow_h, allowance_raw = allow_raw,
                                 balance = bal_h, balance_raw = bal_raw,
                                 risk = rsk\<rparr>])))"

text \<open>
  \<^verbatim>\<open>rows.sort(key=lambda r: (-r.risk, -r.allowance_raw))\<close>: a stable sort, ascending in
  the key, tuples compared lexicographically.
\<close>

definition sort_rows :: "AllowanceRow list \<Rightarrow> AllowanceRow list" where
  "sort_rows rows = sort_key (\<lambda>r. (- risk r, - allowance_raw r)) rows"

definition build_report :: "web3 \<Rightarrow> string \<Rightarrow> pairs \<Rightarrow> py_error + AllowanceRow list" where
  "build_report w3 owner pairs =
    (case build_rows w3 owner pairs Map.empty [] of
       Inl e \<Rightarrow> Inl e
     | Inr rows \<Rightarrow> Inr (sort_rows rows))"

subsection \<open>The table\<close>

text \<open>The three markers, as UTF-8: a black star, a bullet, and a space with the infinity sign.\<close>

definition STAR :: string where
  "STAR = [CHR 0xE2, CHR 0x98, CHR 0x85]"

definition BULLET :: string where
  "BULLET = [CHR 0xE2, CHR 0x80, CHR 0xA2]"

definition INF_SIGN :: string where
  "INF_SIGN = [CHR 0xE2, CHR 0x88, CHR 0x9E]"

definition INF_MARK :: string where
  "INF_MARK = CHR 0x20 # INF_SIGN"

datatype cell = Str string | Num int

definition HEADERS :: "string list" where
  "HEADERS = [''!'', ''SYM'', ''TOKEN'', ''SPENDER'', ''BAL'', ''ALLOW'', ''RISK'']"

text \<open>One line of \<^verbatim>\<open>table\<close>: the body of the loop of \<^verbatim>\<open>print_table\<close>.\<close>

definition table_line :: "bool \<Rightarrow> AllowanceRow \<Rightarrow> cell list" where
  "table_line highlight_infinite r =
    (let star = (if risk r \<ge> 3 then STAR else (if risk r = 2 then BULLET else []));
         inf = (if allowance_raw r \<ge> INFINITE_THRESHOLD \<and> highlight_infinite then INF_MARK else []);
         tag = (if spender_tag r \<noteq> [] then '' ('' @ spender_tag r @ '')'' else [])
     in [Str star, Str (symbol r), Str (token r), Str (spender r @ tag), Str (balance r),
         Str (allowance r @ inf), Num (risk r)])"

text \<open>
  \<^verbatim>\<open>print_table\<close> hands the headers and the lines to \<^verbatim>\<open>tabulate\<close>, which lays them out;
  the model returns what it hands over.
\<close>

definition print_table :: "AllowanceRow list \<Rightarrow> bool \<Rightarrow> string list \<times> cell list list" where
  "print_table rows highlight_infinite = (HEADERS, map (table_line highlight_infinite) rows)"

text \<open>The entry of a line under a header.\<close>

definition column :: "string \<Rightarrow> cell list \<Rightarrow> cell option" where
  "column h line = map_of (zip HEADERS line) h"

subsection \<open>The run\<close>

text \<open>
  What \<^verbatim>\<open>main\<close> prints and writes, in order. The texts of the messages are left out; the
  table and the JSON file carry the report.
\<close>

datatype event =
    PrintHeader int int
  | PrintScanning
  | PrintNoApprovals
  | PrintSummaryTitle
  | PrintTable "string list \<times> cell list list"
  | WriteJson string "AllowanceRow list"
  | PrintJsonSaved string
  | PrintHint

text \<open>The slice \<^verbatim>\<open>xs[:n]\<close>.\<close>

definition slice_to :: "int \<Rightarrow> 'a list \<Rightarrow> 'a list" where
  "slice_to n xs = (if 0 \<le> n then take (nat n) xs else take (length xs - nat (- n)) xs)"

text \<open>
  \<^verbatim>\<open>main\<close> with its parsed arguments; \<open>w3\<close> is the client built for \<^verbatim>\<open>--rpc\<close>. The result
  is what was printed and written, with the exit code or the exception that ended the
  run; \<open>None\<close> when the scan never ends. Writing the JSON file is taken to succeed.
\<close>

definition main ::
  "web3 \<Rightarrow> string \<Rightarrow> int option \<Rightarrow> int option \<Rightarrow> int \<Rightarrow> string option \<Rightarrow> int
    \<Rightarrow> (event list \<times> (py_error + int)) option" where
  "main w3 addr from_block to_block step json_path top' =
    (case to_checksum_address w3 addr of
       Inl e \<Rightarrow> Some ([], Inl e)
     | Inr owner \<Rightarrow>
         if \<not> is_connected w3 then Some ([], Inl SystemExit)
         else
           (case chain_id w3 of
              Inl e \<Rightarrow> Some ([], Inl e)
            | Inr cid \<Rightarrow>
                (case block_number w3 of
                   Inl e \<Rightarrow> Some ([], Inl e)
                 | Inr bn \<Rightarrow>
                     let out = [PrintHeader cid bn, PrintScanning]
                     in (case scan_approvals w3 owner from_block to_block step of
                           None \<Rightarrow> None
                         | Some (Inl e) \<Rightarrow> Some (out, Inl e)
                         | Some (Inr pairs) \<Rightarrow>
                             if pairs = [] then Some (out @ [PrintNoApprovals], Inr 0)
                             else
                               (case build_report w3 owner pairs of
                                  Inl e \<Rightarrow> Some (out, Inl e)
                                | Inr rows \<Rightarrow>
                                    let out = out @ [PrintSummaryTitle,
                                                PrintTable (print_table (slice_to top' rows) True)];
                                        out = (case json_path of
                                                 None \<Rightarrow> out
                                               | Some path \<Rightarrow>
                                                   if path = [] then out
                                                   else out @ [WriteJson path rows, PrintJsonSaved path])
                                    in Some (out @ [PrintHint], Inr 0))))))"

text \<open>The events that carry a report: the table and the JSON file.\<close>

fun is_report :: "event \<Rightarrow> bool" where
  "is_report (PrintTable t) = True"
| "is_report (WriteJson path rows) = True"
| "is_report ev = False"

subsection \<open>A mock node\<close>

text \<open>
  A small chain to run the program on: one token, an owner, and three \<^verbatim>\<open>Approval\<close> logs,
  two of them for the same spender (the Uniswap V2 router) at blocks 5 and 4000, one for
  another spender at block 4500. The first two topics of a log are not read by the
  scanner and are left zero. The mock's \<^verbatim>\<open>to_checksum_address\<close> knows the checksum of the
  router's address and returns any other address as it is.
\<close>

definition mock_token :: string where
  "mock_token = ''0xdAC17F958D2ee523a2206206994597C13D831ec7''"

definition mock_owner :: string where
  "mock_owner = ''0x00000000000000000000000000000000000B0b01''"

definition router_bytes :: bytes where
  "router_bytes = [0x7a, 0x25, 0x0d, 0x56, 0x30, 0xb4, 0xcf, 0x53, 0x97, 0x39,
                   0xdf, 0x2c, 0x5d, 0xac, 0xb4, 0xc6, 0x59, 0xf2, 0x48, 0x8d]"

definition other_bytes :: bytes where
  "other_bytes = replicate 18 0 @ [0xde, 0xad]"

definition router_address :: string where
  "router_address = ''0x7a250d5630B4cF539739dF2C5dAcb4c659F2488D''"

definition other_address :: string where
  "other_address = ''0x000000000000000000000000000000000000dead''"

definition mock_log :: "bytes \<Rightarrow> bytes \<Rightarrow> log_entry" where
  "mock_log spender_bytes value_bytes =
    \<lparr>address = mock_token,
     topics = [replicate 32 0, replicate 32 0, replicate 12 0 @ spender_bytes],
     data = value_bytes\<rparr>"

definition mock_chain :: "(int \<times> log_entry) list" where
  "mock_chain =
    [(5, mock_log router_bytes (replicate 32 0xFF)),
     (4000, mock_log router_bytes (replicate 30 0 @ [0x03, 0xE8])),
     (4500, mock_log other_bytes (replicate 30 0 @ [0x01, 0xF4]))]"

definition mock_checksum :: "string \<Rightarrow> py_error + string" where
  "mock_checksum s =
    (if s = ''0x7a250d5630b4cf539739df2c5dacb4c659f2488d'' then Inr router_address else Inr s)"

definition mock_w3 :: web3 where
  "mock_w3 =
    \<lparr>is_connected = True,
     chain_id = Inr 1,
     block_number = Inr 5000,
     get_logs = (\<lambda>f. Inr (map snd (filter (\<lambda>(n, lg). fromBlock f \<le> n \<and> n \<le> toBlock f) mock_chain))),
     call_symbol = (\<lambda>t. Inl (RPCError ''execution reverted'')),
     call_decimals = (\<lambda>t. Inr 6),
     call_allowance = (\<lambda>t ow sp. if sp = router_address then Inr (2 ^ 256 - 1) else Inr 1100),
     call_balanceOf = (\<lambda>t ow. Inr 100),
     to_checksum_address = mock_checksum\<rparr>"

text \<open>The same node with a provider that times out on every query from block 3000 on.\<close>

definition failing_w3 :: web3 where
  "failing_w3 =
    mock_w3\<lparr>get_logs := (\<lambda>f. if 3000 \<le> fromBlock f then Inl (RPCError ''timeout'')
                                else get_logs mock_w3 f)\<rparr>"

text \<open>The same node with every read of the token failing.\<close>

definition offline_w3 :: web3 where
  "offline_w3 =
    mock_w3\<lparr>call_symbol := (\<lambda>t. Inl (RPCError ''execution reverted'')),
              call_decimals := (\<lambda>t. Inl (RPCError ''execution reverted'')),
              call_allowance := (\<lambda>t ow sp. Inl (RPCError ''timeout'')),
              call_balanceOf := (\<lambda>t ow. Inl (RPCError ''timeout''))\<rparr>"

text \<open>The two rows of the report of the mock node, in the order the pairs were found.\<close>

definition router_row :: AllowanceRow where
  "router_row =
    \<lparr>token = mock_token, symbol = ''UNKNOWN'', decimals = 6,
     spender = router_address, spender_tag = ''Uniswap V2 Router'',
     allowance = ''115792089237316190183760311394656140241344763643041023198016376741560320'',
     allowance_raw = 2 ^ 256 - 1,
     balance = ''0.0001'', balance_raw = 100, risk = 2\<rparr>"

definition other_row :: AllowanceRow where
  "other_row =
    \<lparr>token = mock_token, symbol = ''UNKNOWN'', decimals = 6,
     spender = other_address, spender_tag = [],
     allowance = ''0.0011'', allowance_raw = 1100,
     balance = ''0.0001'', balance_raw = 100, risk = 3\<rparr>"

section \<open>Properties\<close>

subsection \<open>The risk heuristic\<close>

text \<open>
  C1. The risk is 3 exactly when the allowance is infinite and the spender is not
  allowlisted, or the balance is positive, the allowance exceeds ten times the balance
  and the spender is not allowlisted; otherwise it is 2 exactly when the allowance exceeds
  the balance and the spender is not allowlisted, or the allowance is infinite and the
  spender is allowlisted; otherwise it is 1. The five vectors of the specification follow,
  for every unlisted and every listed spender, and both kinds of spender exist.
\<close>

theorem calc_risk_tiers:
  "(calc_risk a b s = 3 \<longleftrightarrow>
      (a \<ge> 2 ^ 255 \<and> s \<notin> fst ` set SAFE_SPENDERS_ETH)
      \<or> (b > 0 \<and> a > 10 * b \<and> s \<notin> fst ` set SAFE_SPENDERS_ETH))
   \<and> (calc_risk a b s = 2 \<longleftrightarrow>
      calc_risk a b s \<noteq> 3
      \<and> ((a > b \<and> s \<notin> fst ` set SAFE_SPENDERS_ETH)
         \<or> (a \<ge> 2 ^ 255 \<and> s \<in> fst ` set SAFE_SPENDERS_ETH)))
   \<and> (calc_risk a b s = 1 \<longleftrightarrow> calc_risk a b s \<noteq> 3 \<and> calc_risk a b s \<noteq> 2)
   \<and> calc_risk (2 ^ 256 - 1) 100 s = (if s \<in> fst ` set SAFE_SPENDERS_ETH then 2 else 3)
   \<and> calc_risk 50 100 s = 1
   \<and> calc_risk 150 100 s = (if s \<in> fst ` set SAFE_SPENDERS_ETH then 1 else 2)
   \<and> calc_risk 1100 100 s = (if s \<in> fst ` set SAFE_SPENDERS_ETH then 1 else 3)
   \<and> ''0xE592427A0AEce92De3Edee1F18E0157C05861564'' \<in> fst ` set SAFE_SPENDERS_ETH
   \<and> ''0x000000000000000000000000000000000000dEaD'' \<notin> fst ` set SAFE_SPENDERS_ETH"
proof -
  have l: "(map_of SAFE_SPENDERS_ETH s \<noteq> None) = (s \<in> fst ` set SAFE_SPENDERS_ETH)"
    by (simp add: map_of_eq_None_iff)
  have r: "calc_risk a b s =
    (if (a \<ge> 2 ^ 255 \<and> s \<notin> fst ` set SAFE_SPENDERS_ETH)
        \<or> (b > 0 \<and> a > 10 * b \<and> s \<notin> fst ` set SAFE_SPENDERS_ETH) then 3
     else if (a > b \<and> s \<notin> fst ` set SAFE_SPENDERS_ETH)
        \<or> (a \<ge> 2 ^ 255 \<and> s \<in> fst ` set SAFE_SPENDERS_ETH) then 2 else 1)" for a b
    unfolding calc_risk_def Let_def INFINITE_THRESHOLD_def l by simp
  have 1: "calc_risk a b s = 3 \<longleftrightarrow>
      (a \<ge> 2 ^ 255 \<and> s \<notin> fst ` set SAFE_SPENDERS_ETH)
      \<or> (b > 0 \<and> a > 10 * b \<and> s \<notin> fst ` set SAFE_SPENDERS_ETH)"
    unfolding r by simp
  have 2: "calc_risk a b s = 2 \<longleftrightarrow>
      calc_risk a b s \<noteq> 3
      \<and> ((a > b \<and> s \<notin> fst ` set SAFE_SPENDERS_ETH)
         \<or> (a \<ge> 2 ^ 255 \<and> s \<in> fst ` set SAFE_SPENDERS_ETH))"
    unfolding r by simp
  have 3: "calc_risk a b s = 1 \<longleftrightarrow> calc_risk a b s \<noteq> 3 \<and> calc_risk a b s \<noteq> 2"
    unfolding r by simp
  have 4: "calc_risk (2 ^ 256 - 1) 100 s = (if s \<in> fst ` set SAFE_SPENDERS_ETH then 2 else 3)"
    unfolding r by simp
  have 5: "calc_risk 50 100 s = 1" unfolding r by simp
  have 6: "calc_risk 150 100 s = (if s \<in> fst ` set SAFE_SPENDERS_ETH then 1 else 2)"
    unfolding r by simp
  have 7: "calc_risk 1100 100 s = (if s \<in> fst ` set SAFE_SPENDERS_ETH then 1 else 3)"
    unfolding r by simp
  have 8: "''0xE592427A0AEce92De3Edee1F18E0157C05861564'' \<in> fst ` set SAFE_SPENDERS_ETH"
    by (simp add: SAFE_SPENDERS_ETH_def)
  have 9: "''0x000000000000000000000000000000000000dEaD'' \<notin> fst ` set SAFE_SPENDERS_ETH"
    by (simp add: SAFE_SPENDERS_ETH_def)
  show ?thesis using 1 2 3 4 5 6 7 8 9 by (intro conjI)
qed

subsection \<open>The chunker\<close>


lemma chunk_induct [consumes 1, case_names step]:
  assumes "1 \<le> (step::int)"
    and "\<And>cur. (cur \<le> end' \<Longrightarrow> P (cur + step)) \<Longrightarrow> P cur"
  shows "P cur"
proof (induction "nat (end' - cur + 1)" arbitrary: cur rule: less_induct)
  case less
  show ?case
  proof (rule assms(2))
    assume "cur \<le> end'"
    with assms(1) have "nat (end' - (cur + step) + 1) < nat (end' - cur + 1)" by linarith
    then show "P (cur + step)" by (rule less)
  qed
qed

lemma chunk_count_Suc:
  assumes "1 \<le> step" "cur \<le> end'"
  shows "chunk_count cur end' step = Suc (chunk_count (cur + step) end' step)"
proof -
  have "(end' - cur + step) div step = (end' - cur) div step + 1"
    using assms(1) by simp
  moreover have "0 \<le> (end' - cur) div step"
    using assms by (simp add: pos_imp_zdiv_nonneg_iff)
  moreover have "end' - (cur + step) + step = end' - cur" by simp
  ultimately show ?thesis
    unfolding chunk_count_def by (simp add: nat_add_distrib)
qed

lemma chunk_count_0: "1 \<le> step \<Longrightarrow> end' < cur \<Longrightarrow> chunk_count cur end' step = 0"
proof -
  assume a: "1 \<le> step" "end' < cur"
  then have "end' - cur + step < step" by simp
  then have "(end' - cur + step) div step \<le> (step - 1) div step"
    using a(1) by (intro zdiv_mono1) simp_all
  moreover have "(step - 1) div step = 0"
    using a(1) by (simp add: div_pos_pos_trivial)
  ultimately have "(end' - cur + step) div step \<le> 0" by simp
  then show ?thesis unfolding chunk_count_def by simp
qed

lemma chunk_ranges_empty: "end' < cur \<Longrightarrow> chunk_ranges cur end' step = Some []"
  by (subst chunk_ranges.simps) simp

lemma chunk_ranges_closed:
  assumes "1 \<le> step"
  shows "chunk_ranges cur end' step =
    Some (map (nth_chunk cur end' step) [0..<chunk_count cur end' step])"
  using assms
proof (induction cur rule: chunk_induct[where end' = end'])
  case (step cur)
  show ?case
  proof (cases "cur \<le> end'")
    case False
    then show ?thesis using assms by (simp add: chunk_ranges_empty chunk_count_0)
  next
    case True
    have shift: "nth_chunk cur end' step (Suc k) = nth_chunk (cur + step) end' step k" for k
      by (simp add: nth_chunk_def algebra_simps)
    have "chunk_ranges cur end' step =
        Some ((cur, min end' (cur + step - 1)) # map (nth_chunk (cur + step) end' step)
          [0..<chunk_count (cur + step) end' step])"
      using True step.IH by (subst chunk_ranges.simps) simp
    also have "(cur, min end' (cur + step - 1)) = nth_chunk cur end' step 0"
      by (simp add: nth_chunk_def)
    finally show ?thesis
      by (simp add: chunk_count_Suc[OF assms True] map_upt_Suc shift del: upt_Suc)
  qed
qed

lemma chunk_concat:
  assumes "1 \<le> step"
  shows "concat (map (\<lambda>k. case nth_chunk cur end' step k of (a, b) \<Rightarrow> [a..b])
            [0..<chunk_count cur end' step]) = [cur..end']"
  using assms
proof (induction cur rule: chunk_induct[where end' = end'])
  case (step cur)
  show ?case
  proof (cases "cur \<le> end'")
    case False
    then show ?thesis using assms by (simp add: chunk_count_0)
  next
    case True
    have shift: "nth_chunk cur end' step (Suc k) = nth_chunk (cur + step) end' step k" for k
      by (simp add: nth_chunk_def algebra_simps)
    have split: "[cur..end'] = [cur..min end' (cur + step - 1)] @ [cur + step..end']"
    proof (cases "cur + step \<le> end'")
      case True
      then show ?thesis using assms upto_split1[of cur "cur + step" end'] by simp
    next
      case False
      then have "min end' (cur + step - 1) = end'" by simp
      then show ?thesis using False by simp
    qed
    have head: "(case nth_chunk cur end' step 0 of (a, b) \<Rightarrow> [a..b]) = [cur..min end' (cur + step - 1)]"
      by (simp add: nth_chunk_def)
    show ?thesis
      using step.IH[OF True]
      by (simp add: chunk_count_Suc[OF assms True] map_upt_Suc shift split head del: upt_Suc)
  qed
qed


lemma ceil_div_pos:
  assumes "1 \<le> (step::int)"
  shows "\<lceil>real_of_int n / real_of_int step\<rceil> = (n + step - 1) div step"
proof -
  have c: "\<lceil>real_of_int n / real_of_int step\<rceil> = - ((- n) div step)"
    by (rule ceiling_divide_eq_div)
  define q where "q = (n + step - 1) div step"
  define r where "r = (n + step - 1) mod step"
  have r: "0 \<le> r" "r < step" using assms by (simp_all add: r_def)
  have n: "n + step - 1 = step * q + r" by (simp add: q_def r_def)
  have "- n = step * (- q) + (step - 1 - r)" using n by (simp add: algebra_simps)
  then have "(- n) div step = - q"
    using r by (intro int_div_pos_eq[where r = "step - 1 - r"]) auto
  then show ?thesis using c by (simp add: q_def)
qed

lemma chunk_start_le:
  assumes "1 \<le> step" "k < chunk_count cur end' step"
  shows "cur + int k * step \<le> end'"
proof -
  have "int k + 1 \<le> (end' - cur + step) div step"
    using assms(2) unfolding chunk_count_def by linarith
  moreover have "(end' - cur + step) div step = (end' - cur) div step + 1"
    using assms(1) by simp
  ultimately have "int k \<le> (end' - cur) div step" by simp
  then have "int k * step \<le> (end' - cur) div step * step"
    using assms(1) by (simp add: mult_right_mono)
  also have "\<dots> \<le> end' - cur"
  proof -
    have "end' - cur = (end' - cur) div step * step + (end' - cur) mod step" by simp
    moreover have "0 \<le> (end' - cur) mod step" using assms(1) by simp
    ultimately show ?thesis by linarith
  qed
  finally show ?thesis by simp
qed

lemma chunk_last_end:
  assumes "1 \<le> step" "cur \<le> end'"
  shows "snd (nth_chunk cur end' step (chunk_count cur end' step - 1)) = end'"
proof -
  define q where "q = (end' - cur) div step"
  have q0: "0 \<le> q" using assms by (simp add: q_def pos_imp_zdiv_nonneg_iff)
  have "(end' - cur + step) div step = q + 1"
    using assms(1) by (simp add: q_def)
  then have k: "int (chunk_count cur end' step - Suc 0) = q"
    using q0 unfolding chunk_count_def by simp
  have "end' - cur = q * step + (end' - cur) mod step" by (simp add: q_def)
  moreover have "(end' - cur) mod step < step" using assms(1) by simp
  ultimately have "end' \<le> cur + q * step + step - 1" by linarith
  then show ?thesis by (simp add: nth_chunk_def k)
qed

text \<open>
  C2. When \<open>start > end\<close> the chunker yields nothing. When \<open>start \<le> end\<close> and
  \<open>step \<ge> 1\<close> it ends, and the chunks it yields, each a non-empty range of at most
  \<open>step\<close> blocks, concatenate to exactly the blocks from \<open>start\<close> to \<open>end\<close> in
  order (so they neither overlap nor leave a gap); every chunk but the last has exactly
  \<open>step\<close> blocks and the next one starts right after it; and their number is
  \<open>\<lceil>(end - start + 1) / step\<rceil>\<close>.
\<close>

theorem chunk_ranges_partition:
  "(end' < start \<longrightarrow> chunk_ranges start end' step = Some []) \<and>
   (start \<le> end' \<and> 1 \<le> step \<longrightarrow>
     (\<exists>cs. chunk_ranges start end' step = Some cs
        \<and> concat (map (\<lambda>(a, b). [a..b]) cs) = [start..end']
        \<and> cs \<noteq> [] \<and> fst (hd cs) = start \<and> snd (last cs) = end'
        \<and> (\<forall>i. i < length cs \<longrightarrow>
              fst (cs ! i) \<le> snd (cs ! i) \<and> snd (cs ! i) - fst (cs ! i) + 1 \<le> step)
        \<and> (\<forall>i. Suc i < length cs \<longrightarrow>
              snd (cs ! i) - fst (cs ! i) + 1 = step \<and> fst (cs ! Suc i) = snd (cs ! i) + 1)
        \<and> int (length cs) = \<lceil>real_of_int (end' - start + 1) / real_of_int step\<rceil>))"
proof (intro conjI impI)
  assume "end' < start"
  then show "chunk_ranges start end' step = Some []" by (rule chunk_ranges_empty)
next
  assume a: "start \<le> end' \<and> 1 \<le> step"
  then have le: "start \<le> end'" and step: "1 \<le> step" by simp_all
  define n where "n = chunk_count start end' step"
  define cs where "cs = map (nth_chunk start end' step) [0..<n]"
  have len: "length cs = n" by (simp add: cs_def)
  have nth: "cs ! i = nth_chunk start end' step i" if "i < n" for i
    using that by (simp add: cs_def)
  have npos: "0 < n" using chunk_count_Suc[OF step le] by (simp add: n_def)
  have 1: "chunk_ranges start end' step = Some cs"
    unfolding cs_def n_def by (rule chunk_ranges_closed[OF step])
  have 2: "concat (map (\<lambda>(a, b). [a..b]) cs) = [start..end']"
    using chunk_concat[OF step, of start end'] by (simp add: cs_def n_def comp_def)
  have 3: "cs \<noteq> []" using npos len by auto
  have 4: "fst (hd cs) = start"
    using npos nth[of 0] 3 by (simp add: hd_conv_nth nth_chunk_def)
  have 5: "snd (last cs) = end'"
    using chunk_last_end[OF step le] npos 3 nth[of "n - 1"]
    by (simp add: last_conv_nth len n_def)
  have 6: "fst (cs ! i) \<le> snd (cs ! i) \<and> snd (cs ! i) - fst (cs ! i) + 1 \<le> step" if "i < length cs" for i
  proof -
    have "i < n" using that len by simp
    then have "start + int i * step \<le> end'"
      using chunk_start_le[OF step] by (simp add: n_def)
    then show ?thesis using step nth[OF \<open>i < n\<close>] by (simp add: nth_chunk_def)
  qed
  have 7: "snd (cs ! i) - fst (cs ! i) + 1 = step \<and> fst (cs ! Suc i) = snd (cs ! i) + 1" if "Suc i < length cs" for i
  proof -
    have s: "Suc i < n" and i: "i < n" using that len by simp_all
    have "start + int (Suc i) * step \<le> end'"
      using s unfolding n_def by (rule chunk_start_le[OF step])
    then have "start + int i * step + step - 1 < end'" by (simp add: algebra_simps)
    then show ?thesis using nth[OF s] nth[OF i] by (simp add: nth_chunk_def algebra_simps)
  qed
  have 8: "int (length cs) = \<lceil>real_of_int (end' - start + 1) / real_of_int step\<rceil>"
  proof -
    have "0 \<le> (end' - start + step) div step"
      using le step by (simp add: pos_imp_zdiv_nonneg_iff)
    then have "int (length cs) = (end' - start + step) div step"
      by (simp add: len n_def chunk_count_def)
    moreover have "end' - start + 1 + step - 1 = end' - start + step" by simp
    then have "\<lceil>real_of_int (end' - start + 1) / real_of_int step\<rceil> = (end' - start + step) div step"
      using ceil_div_pos[OF step, of "end' - start + 1"] by (simp only:)
    ultimately show ?thesis by (simp only:)
  qed
  show "\<exists>cs. chunk_ranges start end' step = Some cs
        \<and> concat (map (\<lambda>(a, b). [a..b]) cs) = [start..end']
        \<and> cs \<noteq> [] \<and> fst (hd cs) = start \<and> snd (last cs) = end'
        \<and> (\<forall>i. i < length cs \<longrightarrow>
              fst (cs ! i) \<le> snd (cs ! i) \<and> snd (cs ! i) - fst (cs ! i) + 1 \<le> step)
        \<and> (\<forall>i. Suc i < length cs \<longrightarrow>
              snd (cs ! i) - fst (cs ! i) + 1 = step \<and> fst (cs ! Suc i) = snd (cs ! i) + 1)
        \<and> int (length cs) = \<lceil>real_of_int (end' - start + 1) / real_of_int step\<rceil>"
    using 1 2 3 4 5 6 7 8 by blast
qed

theorem chunk_ranges_partition_witness:
  "chunk_ranges 5 20 7 = Some [(5, 11), (12, 18), (19, 20)]
   \<and> chunk_ranges 9 3 7 = Some []
   \<and> concat (map (\<lambda>(a, b). [a..b]) [(5, 11), (12, 18), (19, 20)]) = [5..20]
   \<and> int (length [(5::int, 11::int), (12, 18), (19, 20)]) = \<lceil>real_of_int (20 - 5 + 1) / real_of_int 7\<rceil>"
proof -
  have e: "chunk_ranges 5 20 7 = Some [(5, 11), (12, 18), (19, 20)]"
    by (simp add: chunk_ranges.simps)
  have h: "(5::int) \<le> 20 \<and> (1::int) \<le> 7" by simp
  from chunk_ranges_partition[of 20 5 7] h e
  have "concat (map (\<lambda>(a, b). [a..b]) [(5, 11), (12, 18), (19, 20)]) = [5..20]
     \<and> int (length [(5::int, 11::int), (12, 18), (19, 20)]) = \<lceil>real_of_int (20 - 5 + 1) / real_of_int 7\<rceil>"
    by auto
  moreover have "chunk_ranges 9 3 7 = Some []"
    using chunk_ranges_partition[of 3 9 7] by simp
  ultimately show ?thesis using e by simp
qed

subsection \<open>The scanner\<close>

lemma scan_loop_chunks:
  assumes "1 \<le> step"
  shows "scan_loop w3 ot cur latest step pairs =
    Some (scan_chunks w3 ot (map (nth_chunk cur latest step) [0..<chunk_count cur latest step]) pairs)"
  using assms
proof (induction cur arbitrary: pairs rule: chunk_induct[where end' = latest])
  case (step cur)
  show ?case
  proof (cases "cur \<le> latest")
    case False
    then show ?thesis using assms
      by (subst scan_loop.simps) (simp add: chunk_count_0)
  next
    case True
    have shift: "nth_chunk cur latest step (Suc k) = nth_chunk (cur + step) latest step k" for k
      by (simp add: nth_chunk_def algebra_simps)
    have head: "nth_chunk cur latest step 0 = (cur, min latest (cur + step - 1))"
      by (simp add: nth_chunk_def)
    show ?thesis
      using True step.IH[OF True]
      by (subst scan_loop.simps)
        (simp add: chunk_count_Suc[OF assms True] map_upt_Suc shift head Let_def
          del: upt_Suc split: sum.splits)
  qed
qed

lemma scan_approvals_chunks:
  assumes "1 \<le> step" "scan_range w3 from_block to_block = Inr (start, latest)"
    and "chunk_ranges start latest step = Some chunks"
  shows "scan_approvals w3 owner from_block to_block step =
    Some (scan_chunks w3 (owner_topic_of owner) chunks [])"
  using assms chunk_ranges_closed[OF assms(1), of start latest]
  by (simp add: scan_approvals_def scan_loop_chunks)


lemma process_logs_ok_iff:
  "(\<exists>pairs'. process_logs w3 logs pairs = Inr pairs') \<longleftrightarrow>
   (\<forall>lg \<in> set logs. \<exists>kv. decode_log w3 lg = Inr kv)"
  by (induction logs arbitrary: pairs)
    (auto simp: record_log_def split: sum.splits prod.splits)

lemma process_logs_fold:
  "process_logs w3 logs pairs = Inr pairs' \<Longrightarrow>
   \<exists>kvs. map (decode_log w3) logs = map Inr kvs
     \<and> pairs' = fold (\<lambda>(k, v). AList.update k v) kvs pairs"
proof (induction logs arbitrary: pairs)
  case Nil
  then show ?case by simp
next
  case (Cons lg logs)
  from Cons.prems obtain key raw where d: "decode_log w3 lg = Inr (key, raw)"
    and r: "process_logs w3 logs (AList.update key raw pairs) = Inr pairs'"
    by (auto simp: record_log_def split: sum.splits prod.splits)
  from Cons.IH[OF r] obtain kvs where
    "map (decode_log w3) logs = map Inr kvs"
    "pairs' = fold (\<lambda>(k, v). AList.update k v) kvs (AList.update key raw pairs)"
    by blast
  then have "map (decode_log w3) (lg # logs) = map Inr ((key, raw) # kvs)
    \<and> pairs' = fold (\<lambda>(k, v). AList.update k v) ((key, raw) # kvs) pairs"
    using d by simp
  then show ?case by blast
qed

lemma scanned_logs_Cons:
  "scanned_logs w3 ot ((a, b) # chunks) =
    (case get_logs w3 (log_query ot a b) of Inl e \<Rightarrow> [] | Inr logs \<Rightarrow> logs)
      @ scanned_logs w3 ot chunks"
  by (simp add: scanned_logs_def)

lemma scan_chunks_fold:
  "scan_chunks w3 ot chunks pairs = Inr pairs' \<Longrightarrow>
   \<exists>kvs. map (decode_log w3) (scanned_logs w3 ot chunks) = map Inr kvs
     \<and> pairs' = fold (\<lambda>(k, v). AList.update k v) kvs pairs"
proof (induction chunks arbitrary: pairs)
  case Nil
  then show ?case by (simp add: scanned_logs_def)
next
  case (Cons c chunks)
  obtain a b where c: "c = (a, b)" by (cases c)
  from Cons.prems obtain logs mid where g: "get_logs w3 (log_query ot a b) = Inr logs"
    and p: "process_logs w3 logs pairs = Inr mid"
    and r: "scan_chunks w3 ot chunks mid = Inr pairs'"
    by (auto simp: c split: sum.splits)
  from process_logs_fold[OF p] obtain kvs1 where 1:
    "map (decode_log w3) logs = map Inr kvs1"
    "mid = fold (\<lambda>(k, v). AList.update k v) kvs1 pairs" by blast
  from Cons.IH[OF r] obtain kvs2 where 2:
    "map (decode_log w3) (scanned_logs w3 ot chunks) = map Inr kvs2"
    "pairs' = fold (\<lambda>(k, v). AList.update k v) kvs2 mid" by blast
  have "map (decode_log w3) (scanned_logs w3 ot (c # chunks)) = map Inr (kvs1 @ kvs2)
    \<and> pairs' = fold (\<lambda>(k, v). AList.update k v) (kvs1 @ kvs2) pairs"
    using 1 2 g by (simp add: c scanned_logs_Cons)
  then show ?case by blast
qed

lemma fold_update_map_of:
  "map_of (fold (\<lambda>(k, v). AList.update k v) kvs ps) = map_of ps ++ map_of (rev kvs)"
proof (induction kvs arbitrary: ps)
  case Nil
  then show ?case by simp
next
  case (Cons kv kvs)
  obtain k v where kv: "kv = (k, v)" by (cases kv)
  have "map_of (fold (\<lambda>(k, v). AList.update k v) (kv # kvs) ps)
      = (map_of ps)(k \<mapsto> v) ++ map_of (rev kvs)"
  proof -
    have "map_of (AList.update k v ps) = (map_of ps)(k \<mapsto> v)" by (rule update_conv')
    then show ?thesis
      using Cons.IH[of "AList.update k v ps"] by (simp only: kv fold_simps prod.case)
  qed
  also have "\<dots> = map_of ps ++ ([k \<mapsto> v] ++ map_of (rev kvs))"
    by (simp add: map_add_upd_left fun_eq_iff map_add_def split: option.splits)
  also have "[k \<mapsto> v] ++ map_of (rev kvs) = map_of (rev (kv # kvs))"
    by (simp add: kv)
  finally show ?case .
qed

lemma fold_update_distinct:
  "distinct (map fst ps) \<Longrightarrow> distinct (map fst (fold (\<lambda>(k, v). AList.update k v) kvs ps))"
  by (induction kvs arbitrary: ps) (auto simp: distinct_update)

lemma distinct_single_entry:
  "distinct (map fst ps) \<Longrightarrow> map_of ps k = Some v \<Longrightarrow> filter (\<lambda>p. fst p = k) ps = [(k, v)]"
proof (induction ps)
  case Nil
  then show ?case by simp
next
  case (Cons p ps)
  show ?case
  proof (cases "fst p = k")
    case True
    then have "k \<notin> fst ` set ps" using Cons.prems(1) by auto
    then have "filter (\<lambda>p. fst p = k) ps = []" by (auto simp: filter_empty_conv)
    moreover have "p = (k, v)" using True Cons.prems(2) by (cases p) simp
    ultimately show ?thesis by simp
  next
    case False
    then show ?thesis using Cons by (cases p) auto
  qed
qed

lemma last_write:
  assumes "kvs = xs @ [(k, v1)] @ ys @ [(k, v2)] @ zs" "k \<notin> fst ` set zs"
  shows "map_of (rev kvs) k = Some v2"
proof -
  have "map_of (rev zs) k = None" using assms(2) by (simp add: map_of_eq_None_iff)
  then show ?thesis using assms(1) by (simp add: map_add_def)
qed


lemma nth_chunk_shift:
  "nth_chunk cur latest step (Suc k) = nth_chunk (cur + step) latest step k"
  by (simp add: nth_chunk_def algebra_simps)

lemma reach_shift:
  assumes "\<forall>j\<le>Suc k. cur + int j * step \<le> latest"
  shows "\<forall>j\<le>k. (cur + step) + int j * step \<le> latest"
proof (intro allI impI)
  fix j assume "j \<le> k"
  then have "cur + int (Suc j) * step \<le> latest" using assms by auto
  then show "(cur + step) + int j * step \<le> latest" by (simp add: algebra_simps)
qed

lemma scan_loop_fails:
  assumes "\<forall>j\<le>k. cur + int j * step \<le> latest"
    and "get_logs w3 (log_query ot (fst (nth_chunk cur latest step k))
           (snd (nth_chunk cur latest step k))) = Inl e"
  shows "\<exists>e'. scan_loop w3 ot cur latest step pairs = Some (Inl e')"
  using assms
proof (induction k arbitrary: cur pairs)
  case 0
  then have "cur \<le> latest" by simp
  then show ?case using 0(2)
    by (subst scan_loop.simps) (simp add: nth_chunk_def)
next
  case (Suc k)
  have le: "cur \<le> latest" using Suc.prems(1) by force
  have ih: "\<exists>e'. scan_loop w3 ot (cur + step) latest step p = Some (Inl e')" for p
    using Suc.IH[OF reach_shift[OF Suc.prems(1)]] Suc.prems(2)
    by (simp add: nth_chunk_shift)
  show ?case
    using le ih by (subst scan_loop.simps) (simp split: sum.splits)
qed

lemma process_logs_ok:
  "\<forall>lg \<in> set logs. \<exists>kv. decode_log w3 lg = Inr kv \<Longrightarrow> \<exists>pairs'. process_logs w3 logs pairs = Inr pairs'"
  using process_logs_ok_iff by blast

lemma scan_loop_first_failure:
  assumes "\<forall>j\<le>k. cur + int j * step \<le> latest"
    and "get_logs w3 (log_query ot (fst (nth_chunk cur latest step k))
           (snd (nth_chunk cur latest step k))) = Inl e"
    and "\<forall>j<k. \<exists>logs. get_logs w3 (log_query ot (fst (nth_chunk cur latest step j))
           (snd (nth_chunk cur latest step j))) = Inr logs
           \<and> (\<forall>lg \<in> set logs. \<exists>kv. decode_log w3 lg = Inr kv)"
  shows "scan_loop w3 ot cur latest step pairs = Some (Inl e)"
  using assms
proof (induction k arbitrary: cur pairs)
  case 0
  then have "cur \<le> latest" by simp
  then show ?case using 0(2)
    by (subst scan_loop.simps) (simp add: nth_chunk_def)
next
  case (Suc k)
  have le: "cur \<le> latest" using Suc.prems(1) by force
  from Suc.prems(3) obtain logs where
    g: "get_logs w3 (log_query ot cur (min latest (cur + step - 1))) = Inr logs"
    and d: "\<forall>lg \<in> set logs. \<exists>kv. decode_log w3 lg = Inr kv"
    by (force simp: nth_chunk_def)
  from process_logs_ok[OF d] obtain p' where p: "process_logs w3 logs pairs = Inr p'" by blast
  have later: "\<forall>j<k. \<exists>logs. get_logs w3 (log_query ot (fst (nth_chunk (cur + step) latest step j))
           (snd (nth_chunk (cur + step) latest step j))) = Inr logs
           \<and> (\<forall>lg \<in> set logs. \<exists>kv. decode_log w3 lg = Inr kv)"
  proof (intro allI impI)
    fix j assume "j < k"
    then have "Suc j < Suc k" by simp
    with Suc.prems(3) show "\<exists>logs. get_logs w3 (log_query ot (fst (nth_chunk (cur + step) latest step j))
           (snd (nth_chunk (cur + step) latest step j))) = Inr logs
           \<and> (\<forall>lg \<in> set logs. \<exists>kv. decode_log w3 lg = Inr kv)"
      unfolding nth_chunk_shift[symmetric] by blast
  qed
  have "scan_loop w3 ot (cur + step) latest step p' = Some (Inl e)"
    using Suc.IH[OF reach_shift[OF Suc.prems(1)] _ later] Suc.prems(2)
    by (simp add: nth_chunk_shift)
  then show ?case
    using le g p by (subst scan_loop.simps) simp
qed

lemma main_scan_error:
  assumes "to_checksum_address w3 addr = Inr owner"
    and "scan_approvals w3 owner from_block to_block step = Some (Inl e)"
  shows "\<exists>out e'. main w3 addr from_block to_block step json_path top' = Some (out, Inl e')
    \<and> (\<forall>ev \<in> set out. \<not> is_report ev)"
  using assms by (auto simp: main_def split: sum.splits)

text \<open>
  C3. When a scan returns a mapping, its keys are unique, and it maps each
  \<open>(token, spender)\<close> to the raw value of the last log read for that key. In particular,
  two \<^verbatim>\<open>Approval\<close> events for the same key, the second the last for that key, leave one
  entry for the key, and it holds the value of the second.
\<close>

theorem scan_last_write_wins:
  assumes "1 \<le> step"
    and "scan_range w3 from_block to_block = Inr (start, latest)"
    and "scan_approvals w3 owner from_block to_block step = Some (Inr pairs)"
  shows "\<exists>chunks kvs.
      chunk_ranges start latest step = Some chunks
    \<and> map (decode_log w3) (scanned_logs w3 (owner_topic_of owner) chunks) = map Inr kvs
    \<and> distinct (map fst pairs)
    \<and> map_of pairs = map_of (rev kvs)
    \<and> (\<forall>k xs v1 ys v2 zs.
          kvs = xs @ [(k, v1)] @ ys @ [(k, v2)] @ zs \<and> k \<notin> fst ` set zs
          \<longrightarrow> filter (\<lambda>p. fst p = k) pairs = [(k, v2)])"
proof -
  define chunks where "chunks = map (nth_chunk start latest step) [0..<chunk_count start latest step]"
  have c: "chunk_ranges start latest step = Some chunks"
    unfolding chunks_def by (rule chunk_ranges_closed[OF assms(1)])
  have "scan_chunks w3 (owner_topic_of owner) chunks [] = Inr pairs"
    using scan_approvals_chunks[OF assms(1,2) c, of owner] assms(3) by simp
  from scan_chunks_fold[OF this] obtain kvs where
    d: "map (decode_log w3) (scanned_logs w3 (owner_topic_of owner) chunks) = map Inr kvs"
    and f: "pairs = fold (\<lambda>(k, v). AList.update k v) kvs []" by blast
  have dist: "distinct (map fst pairs)"
    unfolding f by (rule fold_update_distinct) simp
  have m: "map_of pairs = map_of (rev kvs)"
    unfolding f by (simp add: fold_update_map_of)
  have two: "filter (\<lambda>p. fst p = k) pairs = [(k, v2)]"
    if "kvs = xs @ [(k, v1)] @ ys @ [(k, v2)] @ zs \<and> k \<notin> fst ` set zs" for k xs v1 ys v2 zs
  proof -
    have "map_of pairs k = Some v2"
      unfolding m using that last_write[of kvs xs k v1 ys v2 zs] by blast
    then show ?thesis by (rule distinct_single_entry[OF dist])
  qed
  show ?thesis using c d dist m two by blast
qed

theorem scan_last_write_wins_witness:
  "(1::int) \<le> 3000
   \<and> scan_range mock_w3 (Some 0) None = Inr (0, 5000)
   \<and> scan_approvals mock_w3 mock_owner (Some 0) None 3000 =
       Some (Inr [((mock_token, router_address), 1000), ((mock_token, other_address), 500)])
   \<and> distinct (map fst [((mock_token, router_address), 1000::int), ((mock_token, other_address), 500)])
   \<and> filter (\<lambda>p. fst p = (mock_token, router_address))
        [((mock_token, router_address), 1000::int), ((mock_token, other_address), 500)]
       = [((mock_token, router_address), 1000)]"
proof -
  let ?pairs = "[((mock_token, router_address), 1000::int), ((mock_token, other_address), 500)]"
  let ?kvs = "[((mock_token, router_address), 2 ^ 256 - 1 :: int),
               ((mock_token, router_address), 1000), ((mock_token, other_address), 500)]"
  have h1: "(1::int) \<le> 3000" by simp
  have h2: "scan_range mock_w3 (Some 0) None = Inr (0, 5000)" by code_simp
  have h3: "scan_approvals mock_w3 mock_owner (Some 0) None 3000 = Some (Inr ?pairs)"
    by code_simp
  from scan_last_write_wins[OF h1 h2 h3] obtain chunks kvs where
    c: "chunk_ranges 0 5000 3000 = Some chunks"
    and d: "map (decode_log mock_w3) (scanned_logs mock_w3 (owner_topic_of mock_owner) chunks)
              = map Inr kvs"
    and dist: "distinct (map fst ?pairs)"
    and two: "\<forall>k xs v1 ys v2 zs.
          kvs = xs @ [(k, v1)] @ ys @ [(k, v2)] @ zs \<and> k \<notin> fst ` set zs
          \<longrightarrow> filter (\<lambda>p. fst p = k) ?pairs = [(k, v2)]"
    by blast
  have "chunk_ranges 0 5000 3000 = Some [(0, 2999), (3000, 5000)]" by code_simp
  with c have chunks: "chunks = [(0, 2999), (3000, 5000)]" by simp
  have "map (decode_log mock_w3)
          (scanned_logs mock_w3 (owner_topic_of mock_owner) [(0, 2999), (3000, 5000)])
        = map Inr ?kvs" by code_simp
  with d have "map Inr kvs = (map Inr ?kvs :: (py_error + (string \<times> string) \<times> int) list)"
    by (simp only: chunks)
  then have kvs: "kvs = ?kvs" by (simp only: inj_map_eq_map[OF inj_Inr])
  have ne: "(mock_token, router_address) \<notin> fst ` set [((mock_token, other_address), 500::int)]"
    by code_simp
  have "kvs = [] @ [((mock_token, router_address), 2 ^ 256 - 1)] @ []
            @ [((mock_token, router_address), 1000)] @ [((mock_token, other_address), 500)]"
    unfolding kvs by simp
  with two ne have "filter (\<lambda>p. fst p = (mock_token, router_address)) ?pairs
       = [((mock_token, router_address), 1000)]" by blast
  with h1 h2 h3 dist show ?thesis by blast
qed

text \<open>
  C6. The loop makes its \<open>k\<close>-th query (counting from 0) for the chunk
  \<open>nth_chunk start latest step k\<close>, provided the chunks before it start at or before
  \<open>latest\<close> (for \<open>step \<ge> 1\<close> these are the chunks of \<open>chunk_ranges\<close>). If the node fails
  that query, the scan ends with an exception and returns no mapping; when the queries
  before it succeeded and their logs could be read, the exception is that of the failed
  query. The run then ends with an exception too, having printed no table and written no
  JSON file.
\<close>

theorem scan_query_failure_is_fatal:
  assumes "scan_range w3 from_block to_block = Inr (start, latest)"
    and "\<forall>j\<le>k. start + int j * step \<le> latest"
    and "get_logs w3 (log_query (owner_topic_of owner)
           (fst (nth_chunk start latest step k)) (snd (nth_chunk start latest step k))) = Inl e"
  shows "(\<exists>e'. scan_approvals w3 owner from_block to_block step = Some (Inl e'))
    \<and> ((\<forall>j<k. \<exists>logs. get_logs w3 (log_query (owner_topic_of owner)
              (fst (nth_chunk start latest step j)) (snd (nth_chunk start latest step j))) = Inr logs
              \<and> (\<forall>lg \<in> set logs. \<exists>kv. decode_log w3 lg = Inr kv))
         \<longrightarrow> scan_approvals w3 owner from_block to_block step = Some (Inl e))
    \<and> (\<forall>addr json_path top'. to_checksum_address w3 addr = Inr owner \<longrightarrow>
          (\<exists>out e'. main w3 addr from_block to_block step json_path top' = Some (out, Inl e')
             \<and> (\<forall>ev \<in> set out. \<not> is_report ev)))"
proof -
  have s: "scan_approvals w3 owner from_block to_block step =
      scan_loop w3 (owner_topic_of owner) start latest step []"
    using assms(1) by (simp add: scan_approvals_def)
  obtain e' where e': "scan_approvals w3 owner from_block to_block step = Some (Inl e')"
    unfolding s using scan_loop_fails[OF assms(2,3)] by blast
  have first: "scan_approvals w3 owner from_block to_block step = Some (Inl e)"
    if "\<forall>j<k. \<exists>logs. get_logs w3 (log_query (owner_topic_of owner)
              (fst (nth_chunk start latest step j)) (snd (nth_chunk start latest step j))) = Inr logs
              \<and> (\<forall>lg \<in> set logs. \<exists>kv. decode_log w3 lg = Inr kv)"
    unfolding s using that by (intro scan_loop_first_failure[OF assms(2,3)])
  have run: "\<exists>out e'. main w3 addr from_block to_block step json_path top' = Some (out, Inl e')
             \<and> (\<forall>ev \<in> set out. \<not> is_report ev)"
    if "to_checksum_address w3 addr = Inr owner" for addr json_path top'
    using that e' by (rule main_scan_error)
  show ?thesis using e' first run by blast
qed

theorem scan_query_failure_is_fatal_witness:
  "scan_range failing_w3 (Some 0) None = Inr (0, 5000)
   \<and> get_logs failing_w3 (log_query (owner_topic_of mock_owner) 3000 5000) = Inl (RPCError ''timeout'')
   \<and> scan_approvals failing_w3 mock_owner (Some 0) None 3000 = Some (Inl (RPCError ''timeout''))
   \<and> (\<exists>out e'. main failing_w3 mock_owner (Some 0) None 3000 None 50 = Some (out, Inl e')
         \<and> list_all (\<lambda>ev. \<not> is_report ev) out)"
proof -
  let ?ot = "owner_topic_of mock_owner"
  have h1: "scan_range failing_w3 (Some 0) None = Inr (0, 5000)" by code_simp
  have h2: "\<forall>j\<le>(1::nat). 0 + int j * 3000 \<le> (5000::int)"
    by (auto simp: le_Suc_eq)
  have c1: "nth_chunk 0 5000 3000 1 = (3000, 5000)" by (simp add: nth_chunk_def)
  have c0: "nth_chunk 0 5000 3000 0 = (0, 2999)" by (simp add: nth_chunk_def)
  have g: "get_logs failing_w3 (log_query ?ot 3000 5000) = Inl (RPCError ''timeout'')"
    by code_simp
  have h3: "get_logs failing_w3 (log_query ?ot
           (fst (nth_chunk 0 5000 3000 1)) (snd (nth_chunk 0 5000 3000 1))) = Inl (RPCError ''timeout'')"
    unfolding c1 using g by simp
  have g0: "get_logs failing_w3 (log_query ?ot 0 2999) = Inr [mock_log router_bytes (replicate 32 0xFF)]"
    by code_simp
  have d0: "decode_log failing_w3 (mock_log router_bytes (replicate 32 0xFF))
      = Inr ((mock_token, router_address), 2 ^ 256 - 1)" by code_simp
  have h4: "\<forall>j<(1::nat). \<exists>logs. get_logs failing_w3 (log_query ?ot
              (fst (nth_chunk 0 5000 3000 j)) (snd (nth_chunk 0 5000 3000 j))) = Inr logs
              \<and> (\<forall>lg \<in> set logs. \<exists>kv. decode_log failing_w3 lg = Inr kv)"
    using g0 d0 by (simp add: c0)
  have h5: "to_checksum_address failing_w3 mock_owner = Inr mock_owner" by code_simp
  from scan_query_failure_is_fatal[OF h1 h2 h3] h4 h5
  have "scan_approvals failing_w3 mock_owner (Some 0) None 3000 = Some (Inl (RPCError ''timeout''))"
    and "\<exists>out e'. main failing_w3 mock_owner (Some 0) None 3000 None 50 = Some (out, Inl e')
         \<and> (\<forall>ev \<in> set out. \<not> is_report ev)"
    by blast+
  then show ?thesis using h1 g by (simp add: list_all_iff)
qed

text \<open>
  C10. A negative \<^verbatim>\<open>from_block\<close> given by the caller is clamped like the default: the scan
  covers the same range and returns the same result as with \<^verbatim>\<open>from_block = 0\<close>, and when
  there is a block to scan its first chunk starts at block 0.
\<close>

theorem scan_clamps_from_block:
  assumes "fb < 0"
  shows "scan_range w3 (Some fb) to_block = scan_range w3 (Some 0) to_block
    \<and> scan_approvals w3 owner (Some fb) to_block step = scan_approvals w3 owner (Some 0) to_block step
    \<and> (\<forall>start latest chunks.
          scan_range w3 (Some fb) to_block = Inr (start, latest) \<and> 0 \<le> latest \<and> 1 \<le> step
            \<and> chunk_ranges start latest step = Some chunks
          \<longrightarrow> start = 0 \<and> chunks \<noteq> [] \<and> fst (hd chunks) = 0
              \<and> scan_approvals w3 owner (Some fb) to_block step =
                  Some (scan_chunks w3 (owner_topic_of owner) chunks []))"
proof -
  have r: "scan_range w3 (Some fb) to_block = scan_range w3 (Some 0) to_block"
    using assms by (simp add: scan_range_def max_def split: sum.splits)
  have a: "scan_approvals w3 owner (Some fb) to_block step = scan_approvals w3 owner (Some 0) to_block step"
    by (simp add: scan_approvals_def r)
  have c: "start = 0 \<and> chunks \<noteq> [] \<and> fst (hd chunks) = 0
      \<and> scan_approvals w3 owner (Some fb) to_block step =
          Some (scan_chunks w3 (owner_topic_of owner) chunks [])"
    if h: "scan_range w3 (Some fb) to_block = Inr (start, latest) \<and> 0 \<le> latest \<and> 1 \<le> step
            \<and> chunk_ranges start latest step = Some chunks" for start latest chunks
  proof -
    have s0: "start = 0"
      using h assms by (auto simp: scan_range_def max_def split: sum.splits)
    have step: "1 \<le> step" and le: "start \<le> latest" using h s0 by simp_all
    have "chunks = map (nth_chunk start latest step) [0..<chunk_count start latest step]"
      using h chunk_ranges_closed[OF step, of start latest] by simp
    then have "chunks = nth_chunk start latest step 0
        # map (nth_chunk start latest step) [Suc 0..<Suc (chunk_count (start + step) latest step)]"
      by (simp add: chunk_count_Suc[OF step le] upt_conv_Cons del: upt_Suc)
    then have "chunks \<noteq> [] \<and> fst (hd chunks) = 0"
      by (simp add: nth_chunk_def s0)
    moreover have "scan_approvals w3 owner (Some fb) to_block step =
          Some (scan_chunks w3 (owner_topic_of owner) chunks [])"
    proof -
      have hr: "scan_range w3 (Some fb) to_block = Inr (start, latest)"
        and hc: "chunk_ranges start latest step = Some chunks" using h by simp_all
      show ?thesis by (rule scan_approvals_chunks[OF step hr hc])
    qed
    ultimately show ?thesis using s0 by simp
  qed
  show ?thesis using r a c by blast
qed

theorem scan_clamps_from_block_witness:
  "(- 5 :: int) < 0
   \<and> scan_range mock_w3 (Some (- 5)) None = Inr (0, 5000)
   \<and> chunk_ranges 0 5000 3000 = Some [(0, 2999), (3000, 5000)]
   \<and> scan_approvals mock_w3 mock_owner (Some (- 5)) None 3000
       = scan_approvals mock_w3 mock_owner (Some 0) None 3000
   \<and> scan_approvals mock_w3 mock_owner (Some (- 5)) None 3000
       = Some (scan_chunks mock_w3 (owner_topic_of mock_owner) [(0, 2999), (3000, 5000)] [])"
proof -
  have h: "(- 5 :: int) < 0" by simp
  have r: "scan_range mock_w3 (Some (- 5)) None = Inr (0, 5000)" by code_simp
  have c: "chunk_ranges 0 5000 3000 = Some [(0, 2999), (3000, 5000)]" by code_simp
  from scan_clamps_from_block[OF h, of mock_w3 None mock_owner 3000] r c
  show ?thesis by auto
qed

end
